theory Spec2Isabelle
  imports Complex_Main "HOL-Library.Multiset"
begin

section \<open>The chunked parallel batch processor of ban/commands/helpers.py\<close>

text \<open>
  The development embeds \<^verbatim>\<open>collect_report\<close>, \<^verbatim>\<open>ChunkedPool._get_tasks_from_query\<close>,
  \<^verbatim>\<open>ChunkedPool.imap_unordered\<close> and \<^verbatim>\<open>batch\<close>. Python values that cross the
  functions are lists; exceptions are values of a sum type; the worker processes and the
  arrival order of their answers are explicit parameters (a schedule, an arrival list), and
  so are the progress bar and \<^verbatim>\<open>sys.maxsize\<close>.
\<close>

subsection \<open>Python values and errors\<close>

text \<open>
  Errors raised by the interpreter in the code modelled here: \<^verbatim>\<open>range(0, n, 0)\<close> and
  \<^verbatim>\<open>islice(it, -1)\<close> raise ValueError, \<^verbatim>\<open>()[0]\<close> raises IndexError,
  \<^verbatim>\<open>"\n" + 5\<close> raises TypeError. Their message texts are not modelled.
\<close>

datatype py_error = ValueError | IndexError | TypeError

text \<open>
  An exception object, as the user function or the progress bar raises it. The code tells
  three kinds of classes apart: \<^verbatim>\<open>StopIteration\<close> (which ends a \<^verbatim>\<open>for\<close> loop when the
  iterator raises it), any other subclass of \<^verbatim>\<open>Exception\<close> (which \<^verbatim>\<open>except Exception\<close>
  catches, as it catches \<^verbatim>\<open>StopIteration\<close> raised in the body), and exceptions that are not
  an \<^verbatim>\<open>Exception\<close> (\<^verbatim>\<open>SystemExit\<close>, \<^verbatim>\<open>KeyboardInterrupt\<close>, \<^verbatim>\<open>GeneratorExit\<close>).
  \<^verbatim>\<open>batch\<close> reads the \<^verbatim>\<open>args\<close> tuple (\<^verbatim>\<open>e.args[0]\<close>). \<open>pickles\<close> says whether the
  object survives the pickle round trip from a worker process to the orchestrator.
\<close>

datatype pyval = PyStr string | PyInt int | PyNone

datatype exc_class = StopIterationExc | OtherException | NotAnException

datatype exc = Exc (cls: exc_class) (args: "pyval list") (pickles: bool)

subsection \<open>The chunk source\<close>

text \<open>
  \<^verbatim>\<open>range(start, stop, step)\<close>: a zero step raises ValueError; otherwise the elements
  \<open>start + k * step\<close> that lie before \<open>stop\<close> in the direction of the step.
\<close>

definition py_range :: "int \<Rightarrow> int \<Rightarrow> int \<Rightarrow> py_error + int list" where
  "py_range start stop step =
     (if step = 0 then Inl ValueError
      else if 0 < step then
        Inr (map (\<lambda>k. start + int k * step) [0..<nat ((stop - start + step - 1) div step)])
      else
        Inr (map (\<lambda>k. start + int k * step) [0..<nat ((start - stop - step - 1) div (- step))]))"

text \<open>
  The paginated source (\<^verbatim>\<open>SelectQuery\<close>, whose class is not part of the sources at hand)
  is taken through the two operations the chunk source uses: \<^verbatim>\<open>query.count()\<close> and
  \<^verbatim>\<open>list(query.limit(lmt).offset(ofs))\<close> (as \<open>limit_offset query lmt ofs\<close>).
\<close>

record 'a query =
  count_rows :: nat
  limit_offset :: "int \<Rightarrow> int \<Rightarrow> 'a list"

text \<open>
  A consistent paginated source over the rows \<open>rows\<close>: it reports their number and a window
  is the slice \<^verbatim>\<open>rows[ofs : ofs + lmt]\<close>. (The chunk source only asks for windows with
  \<open>0 < lmt\<close> and \<open>0 \<le> ofs\<close>.)
\<close>

definition window :: "'a list \<Rightarrow> int \<Rightarrow> int \<Rightarrow> 'a list" where
  "window rows lmt ofs = take (nat lmt) (drop (nat ofs) rows)"

definition query_of_rows :: "'a list \<Rightarrow> 'a query" where
  "query_of_rows rows = \<lparr>count_rows = length rows, limit_offset = window rows\<rparr>"

text \<open>
  \<^verbatim>\<open>
  @classmethod
  def _get_tasks_from_query(cls, func, query, chunksize):
      for idx in range(0, query.count(), chunksize):
          yield (func, list(query.limit(chunksize).offset(idx)))
  \<close>
  The function component of every task is \<^verbatim>\<open>func\<close>; the model keeps the chunks.
\<close>

definition get_tasks_from_query :: "'a query \<Rightarrow> int \<Rightarrow> py_error + 'a list list" where
  "get_tasks_from_query query chunksize =
     (case py_range 0 (int (count_rows query)) chunksize of
        Inl e \<Rightarrow> Inl e
      | Inr idxs \<Rightarrow> Inr (map (\<lambda>idx. limit_offset query chunksize idx) idxs))"

text \<open>
  The standard library's \<^verbatim>\<open>Pool._get_tasks\<close>, which \<^verbatim>\<open>imap_unordered\<close> calls for a
  plain iterable:
  \<^verbatim>\<open>
  @staticmethod
  def _get_tasks(func, it, size):
      it = iter(it)
      while 1:
          x = tuple(itertools.islice(it, size))
          if not x:
              return
          yield (func, x)
  \<close>
  \<^verbatim>\<open>islice\<close> accepts a stop argument from 0 to \<^verbatim>\<open>sys.maxsize\<close> and raises ValueError for
  any other integer; for \<open>size = 0\<close> the first slice is empty and the generator returns at
  once. \<^verbatim>\<open>sys.maxsize\<close> depends on the platform and is the parameter \<open>maxsize\<close>.
  (\<open>sz\<close> stands for \<^verbatim>\<open>size\<close>.)
\<close>

function get_tasks_loop :: "'a list \<Rightarrow> nat \<Rightarrow> 'a list list" where
  "get_tasks_loop it sz =
     (let x = take sz it in
      if x = [] then [] else x # get_tasks_loop (drop sz it) sz)"
  by pat_completeness auto
termination
  by (relation "measure (\<lambda>(it, sz). length it)") auto

definition get_tasks :: "nat \<Rightarrow> 'a list \<Rightarrow> int \<Rightarrow> py_error + 'a list list" where
  "get_tasks maxsize it sz =
     (if sz < 0 \<or> int maxsize < sz then Inl ValueError
      else Inr (get_tasks_loop it (nat sz)))"

text \<open>
  \<^verbatim>\<open>
  def imap_unordered(self, func, iterable, chunksize):
      assert self._state == RUN
      if isinstance(iterable, SelectQuery):
          task_batches = self._get_tasks_from_query(func, iterable, chunksize)
      else:
          task_batches = self._get_tasks(func, iterable, chunksize)
      result = IMapUnorderedIterator(self._cache)
      tasks = ((result._job, i, collect_report, (func, chunk), {})
               for i, (_, chunk) in enumerate(task_batches))
      self._taskqueue.put((tasks, result._set_length))
      return result
  \<close>
  The model gives the tasks put on the queue, each as its index \<open>i\<close> and its chunk (the
  job id, \<^verbatim>\<open>collect_report\<close> and \<^verbatim>\<open>func\<close> are the same in every task). The pool has
  just been created by \<^verbatim>\<open>batch\<close>, so the assertion holds. The task generator is lazy:
  an error of the chunk source is raised when the pool first advances it, and is the
  \<open>Inl\<close> result here. What the pool does with the tasks is modelled below (\<open>run_tasks\<close>).
\<close>

datatype 'a iterable = Plain "'a list" | SelectQuery "'a query"

definition imap_unordered ::
  "nat \<Rightarrow> 'a iterable \<Rightarrow> int \<Rightarrow> py_error + (nat \<times> 'a list) list" where
  "imap_unordered maxsize iterable chunksize =
     (case (case iterable of
              SelectQuery query \<Rightarrow> get_tasks_from_query query chunksize
            | Plain it \<Rightarrow> get_tasks maxsize it chunksize) of
        Inl e \<Rightarrow> Inl e
      | Inr task_batches \<Rightarrow> Inr (enumerate 0 task_batches))"

subsection \<open>The Reporter\<close>

text \<open>
  Modelled from the spec: the Reporter class (\<^verbatim>\<open>context.get('reporter')\<close>), whose source
  is not among the files at hand. Following the specification, a Reporter is a
  process-local buffer of entries kept in insertion order; \<^verbatim>\<open>clear()\<close> empties the
  buffer, \<^verbatim>\<open>merge(entries)\<close> appends the entries of another Reporter to it, and
  \<^verbatim>\<open>_reports.copy()\<close> is the current content of the buffer.
\<close>

type_synonym 'e reporter = "'e list"

definition reporter_clear :: "'e reporter \<Rightarrow> 'e reporter" where
  "reporter_clear reporter = []"

definition reporter_merge :: "'e reporter \<Rightarrow> 'e list \<Rightarrow> 'e reporter" where
  "reporter_merge reporter reports = reporter @ reports"

subsection \<open>The worker side\<close>

text \<open>
  The user function is called with the items of one chunk. It finds its Reporter through
  the process-local context, so the model hands it the buffer of the worker's Reporter and
  gets the buffer back, together with either the exception it raised or its results.
\<close>

type_synonym ('a, 'r, 'e) user_func = "'a list \<Rightarrow> 'e reporter \<Rightarrow> (exc + 'r list) \<times> 'e reporter"

text \<open>What one task sends back through the pool: the exception, or results and reports.\<close>

type_synonym ('r, 'e) answer = "exc + 'r list \<times> 'e list"

text \<open>
  \<^verbatim>\<open>
  def collect_report(func, chunk):
      # This is a process reporter instance.
      reporter = context.get('reporter')
      results = func(*chunk)
      reports = reporter._reports.copy()
      reporter.clear()
      return results, reports
  \<close>
  There is no \<^verbatim>\<open>try\<close> around the call: when \<^verbatim>\<open>func\<close> raises, the two lines after it
  do not run. The second component of the model's result is the worker's Reporter afterwards.
\<close>

definition collect_report ::
  "('a, 'r, 'e) user_func \<Rightarrow> 'a list \<Rightarrow> 'e reporter \<Rightarrow> ('r, 'e) answer \<times> 'e reporter" where
  "collect_report func chunk reporter =
     (case func chunk reporter of
        (Inl e, reporter') \<Rightarrow> (Inl e, reporter')
      | (Inr results, reporter') \<Rightarrow>
          (let reports = reporter' in (Inr (results, reports), reporter_clear reporter')))"

text \<open>
  Modelled from the spec: the Reporter of a worker process before its first task. The
  specification has it created in the worker at first use, so its buffer is empty.
\<close>

definition fresh_reporters :: "nat \<Rightarrow> 'e reporter" where
  "fresh_reporters w = []"

text \<open>
  The worker processes of the pool. Every task is run by one worker, which calls
  \<^verbatim>\<open>collect_report(func, chunk)\<close> and sends back what it returns, or the exception it
  raises; a worker keeps its Reporter from one task to the next. Tasks leave the queue in
  submission order; \<open>w\<close> is the worker that takes the task, and \<open>reporters w\<close> the buffer
  of its Reporter. The worker catches an \<^verbatim>\<open>Exception\<close> only: anything else ends its
  process, and the pool puts a new process in its place, whose Reporter is that of a
  process before its first task. The result lists, in submission order, what the tasks
  returned or raised.
\<close>

fun run_tasks ::
  "('a, 'r, 'e) user_func \<Rightarrow> (nat \<Rightarrow> 'e reporter) \<Rightarrow> (nat \<times> 'a list) list \<Rightarrow> ('r, 'e) answer list" where
  "run_tasks func reporters [] = []"
| "run_tasks func reporters ((w, chunk) # tasks) =
     (case collect_report func chunk (reporters w) of
        (Inl e, reporter') \<Rightarrow>
          Inl e # run_tasks func
                    (reporters(w := if cls e = NotAnException then fresh_reporters w
                                    else reporter')) tasks
      | (Inr b, reporter') \<Rightarrow> Inr b # run_tasks func (reporters(w := reporter')) tasks)"

text \<open>
  What a task raised reaches \<^verbatim>\<open>batch\<close> only if it is an \<^verbatim>\<open>Exception\<close> (the worker
  catches nothing else, and its process ends) and survives the pickle round trip.
\<close>

definition arrives :: "exc \<Rightarrow> bool" where
  "arrives e \<longleftrightarrow> cls e \<noteq> NotAnException \<and> pickles e"

fun answer_arrives :: "('r, 'e) answer \<Rightarrow> bool" where
  "answer_arrives (Inl e) = arrives e"
| "answer_arrives (Inr b) = True"

text \<open>
  The stream that \<^verbatim>\<open>pool.imap_unordered(func, iterable, chunksize)\<close> hands to
  \<^verbatim>\<open>batch\<close> holds the answers of the tasks in the order of their arrival: any order, for
  any assignment \<open>sched\<close> of the tasks to workers. A run in which a task raises something
  that does not arrive has no stream here: \<open>delivers\<close> describes the runs in which every
  task is answered.
\<close>

definition delivers ::
  "('a, 'r, 'e) user_func \<Rightarrow> (nat \<Rightarrow> 'e reporter) \<Rightarrow> nat list \<Rightarrow> (nat \<times> 'a list) list
     \<Rightarrow> ('r, 'e) answer list \<Rightarrow> bool" where
  "delivers func reporters sched tasks stream \<longleftrightarrow>
     length sched = length tasks
     \<and> list_all answer_arrives (run_tasks func reporters (zip sched (map snd tasks)))
     \<and> mset stream = mset (run_tasks func reporters (zip sched (map snd tasks)))"

fun results_of :: "('r, 'e) answer \<Rightarrow> 'r list" where
  "results_of (Inr (results, reports)) = results"
| "results_of (Inl e) = []"

fun reports_of :: "('r, 'e) answer \<Rightarrow> 'e list" where
  "reports_of (Inr (results, reports)) = reports"
| "reports_of (Inl e) = []"

subsection \<open>The progress bar\<close>

text \<open>
  \<^verbatim>\<open>bar = Bar(total=total, throttle=timedelta(seconds=1))\<close> is an object of the progressist
  library, which is not among the sources. \<^verbatim>\<open>batch\<close> calls it with \<^verbatim>\<open>bar(step=n)\<close> and
  \<^verbatim>\<open>bar.finish()\<close>, inside its \<^verbatim>\<open>try\<close> block, so what matters is whether a call returns
  or raises. That is the parameter \<open>bar\<close>: after the calls \<^verbatim>\<open>bar(step=n)\<close> that returned,
  with the steps \<open>steps\<close>, \<open>bar steps (Some n)\<close> is the exception that \<^verbatim>\<open>bar(step=n)\<close>
  raises and \<open>bar steps None\<close> the exception that \<^verbatim>\<open>bar.finish()\<close> raises; \<open>None\<close> when
  the call returns.
\<close>

type_synonym progress_bar = "nat list \<Rightarrow> nat option \<Rightarrow> exc option"

text \<open>A progress bar that accepts every call, as one made with a total it can compute with.\<close>

definition accepting_bar :: progress_bar where
  "accepting_bar steps call = None"

text \<open>
  The progress bar of a call that leaves \<^verbatim>\<open>total\<close> at its default \<^verbatim>\<open>None\<close>: the library
  computes with the total at each call, which raises a TypeError. Its one argument is the
  message, a string, whose text is not modelled (\<open>''no total''\<close> stands for it).
\<close>

definition bar_without_total :: progress_bar where
  "bar_without_total steps call = Some (Exc OtherException [PyStr ''no total''] True)"

subsection \<open>The orchestrator\<close>

text \<open>
  What \<^verbatim>\<open>batch\<close> acts on: the main Reporter, the progress bar (the steps of the calls
  \<^verbatim>\<open>bar(step=n)\<close> that returned, and whether \<^verbatim>\<open>finish()\<close> was called and returned), what
  was printed, and whether the pool was terminated.
\<close>

record 'e orchestrator =
  reporter :: "'e reporter"
  bar_steps :: "nat list"
  bar_finished :: bool
  stdout :: "string list"
  pool_terminated :: bool

text \<open>
  How the generator ends for its consumer: it is exhausted, or it raises an error of the
  handler, or an exception that the handler does not catch.
\<close>

datatype ending = StopIteration | Raised py_error | Uncaught exc

text \<open>
  \<^verbatim>\<open>
  def batch(func, iterable, chunksize=1000, total=None, progress=True):
      # This is the main reporter instance.
      reporter = context.get('reporter')
      bar = Bar(total=total, throttle=timedelta(seconds=1))
      workers = int(config.get('WORKERS', os.cpu_count()))

      with ChunkedPool(processes=workers) as pool:
          try:
              for results, reports in pool.imap_unordered(func, iterable, chunksize):
                  reporter.merge(reports)
                  bar(step=len(results))
                  yield from results
              bar.finish()
          except Exception as e:
              print("\n"+e.args[0])
              pool.terminate()
  \<close>
  The functions below give the items yielded, each with the state of the orchestrator at
  the moment the generator is suspended on it, then how the generator ends, and the final
  state. Leaving the \<^verbatim>\<open>with\<close> block terminates the pool on every path.

  \<open>batch_except e s\<close> is the \<^verbatim>\<open>except\<close> clause for an exception \<open>e\<close> raised in the
  \<^verbatim>\<open>try\<close> block. It does not catch what is not an \<^verbatim>\<open>Exception\<close>. \<^verbatim>\<open>e.args[0]\<close> raises
  IndexError for an empty \<^verbatim>\<open>args\<close> and the concatenation raises TypeError when the
  first argument is not a string; both leave the generator before \<^verbatim>\<open>pool.terminate()\<close>
  of the handler, through the \<^verbatim>\<open>with\<close> block.
\<close>

definition batch_except ::
  "exc \<Rightarrow> 'e orchestrator \<Rightarrow> ('r \<times> 'e orchestrator) list \<times> ending \<times> 'e orchestrator" where
  "batch_except e s =
     (if cls e = NotAnException then ([], Uncaught e, s\<lparr>pool_terminated := True\<rparr>)
      else
        (case args e of
           [] \<Rightarrow> ([], Raised IndexError, s\<lparr>pool_terminated := True\<rparr>)
         | a # _ \<Rightarrow>
             (case a of
                PyStr msg \<Rightarrow>
                  ([], StopIteration,
                   s\<lparr>stdout := stdout s @ [CHR 0x0A # msg], pool_terminated := True\<rparr>)
              | _ \<Rightarrow> ([], Raised TypeError, s\<lparr>pool_terminated := True\<rparr>))))"

text \<open>\<open>batch_finish bar s\<close> is \<^verbatim>\<open>bar.finish()\<close> after the loop, and the end of the generator.\<close>

definition batch_finish ::
  "progress_bar \<Rightarrow> 'e orchestrator
     \<Rightarrow> ('r \<times> 'e orchestrator) list \<times> ending \<times> 'e orchestrator" where
  "batch_finish bar s =
     (case bar (bar_steps s) None of
        None \<Rightarrow> ([], StopIteration, s\<lparr>bar_finished := True, pool_terminated := True\<rparr>)
      | Some e \<Rightarrow> batch_except e s)"

text \<open>
  \<open>batch_loop bar stream s\<close> is the \<^verbatim>\<open>for\<close> loop over the stream of the pool and what
  follows it. The iterator of the pool raises the exception of a task at the
  \<^verbatim>\<open>for\<close> statement: a \<^verbatim>\<open>StopIteration\<close> ends the loop as an exhausted iterator does,
  and the rest of the stream is not read; any other exception goes to the \<^verbatim>\<open>except\<close>
  clause. The results of a chunk are a list, so \<^verbatim>\<open>len(results)\<close> and
  \<^verbatim>\<open>yield from results\<close> do not raise, and the consumer reads the generator to its end.
\<close>

fun batch_loop ::
  "progress_bar \<Rightarrow> ('r, 'e) answer list \<Rightarrow> 'e orchestrator
     \<Rightarrow> ('r \<times> 'e orchestrator) list \<times> ending \<times> 'e orchestrator" where
  "batch_loop bar [] s = batch_finish bar s"
| "batch_loop bar (Inl e # stream) s =
     (if cls e = StopIterationExc then batch_finish bar s else batch_except e s)"
| "batch_loop bar (Inr (results, reports) # stream) s =
     (let s1 = s\<lparr>reporter := reporter_merge (reporter s) reports\<rparr> in
      case bar (bar_steps s1) (Some (length results)) of
        Some e \<Rightarrow> batch_except e s1
      | None \<Rightarrow>
          (let s2 = s1\<lparr>bar_steps := bar_steps s1 @ [length results]\<rparr>;
               (yielded, ending, final) = batch_loop bar stream s2
           in (map (\<lambda>r. (r, s2)) results @ yielded, ending, final)))"

text \<open>
  \<open>batch bar reporter0 stream\<close>: the main Reporter is the one of the context, with the
  buffer \<open>reporter0\<close>; the progress bar \<open>bar\<close> is new, so no step has been made.
\<close>

definition batch ::
  "progress_bar \<Rightarrow> 'e reporter \<Rightarrow> ('r, 'e) answer list
     \<Rightarrow> ('r \<times> 'e orchestrator) list \<times> ending \<times> 'e orchestrator" where
  "batch bar reporter0 stream =
     batch_loop bar stream
       \<lparr>reporter = reporter0, bar_steps = [], bar_finished = False, stdout = [],
        pool_terminated = False\<rparr>"

subsection \<open>User functions for the examples\<close>

text \<open>
  \<open>echo_items\<close> returns its items and records one entry for each. \<open>refuse_13\<close> records an
  entry for each item up to the first 13 and raises an exception there; \<open>stop_at_13\<close>
  does the same and raises \<^verbatim>\<open>StopIteration\<close>.
\<close>

definition echo_items :: "(nat, nat, string) user_func" where
  "echo_items chunk rep = (Inr chunk, rep @ map (\<lambda>_. ''seen'') chunk)"

definition refuse_13 :: "(nat, nat, string) user_func" where
  "refuse_13 chunk rep =
     (if 13 \<in> set chunk
      then (Inl (Exc OtherException [PyStr ''bad item''] True),
            rep @ map (\<lambda>_. ''seen'') (takeWhile (\<lambda>x. x \<noteq> 13) chunk))
      else (Inr chunk, rep @ map (\<lambda>_. ''seen'') chunk))"

definition stop_at_13 :: "(nat, nat, string) user_func" where
  "stop_at_13 chunk rep =
     (if 13 \<in> set chunk
      then (Inl (Exc StopIterationExc [] True),
            rep @ map (\<lambda>_. ''seen'') (takeWhile (\<lambda>x. x \<noteq> 13) chunk))
      else (Inr chunk, rep @ map (\<lambda>_. ''seen'') chunk))"

section \<open>Properties of the chunk source\<close>

declare get_tasks_loop.simps [simp del]

lemma get_tasks_loop_Nil: "get_tasks_loop [] n = []"
  by (simp add: get_tasks_loop.simps)

lemma get_tasks_loop_zero: "get_tasks_loop xs 0 = []"
  by (simp add: get_tasks_loop.simps)

lemma get_tasks_loop_step:
  "0 < n \<Longrightarrow> xs \<noteq> [] \<Longrightarrow> get_tasks_loop xs n = take n xs # get_tasks_loop (drop n xs) n"
  by (subst get_tasks_loop.simps) (simp add: Let_def)

lemma concat_get_tasks_loop: "0 < n \<Longrightarrow> concat (get_tasks_loop xs n) = xs"
proof (induction xs n rule: get_tasks_loop.induct)
  case (1 it sz)
  show ?case
  proof (cases "it = []")
    case True
    then show ?thesis by (simp add: get_tasks_loop_Nil)
  next
    case False
    with 1 show ?thesis by (simp add: get_tasks_loop_step)
  qed
qed

lemma length_get_tasks_loop: "0 < n \<Longrightarrow> length (get_tasks_loop xs n) = (length xs + n - 1) div n"
proof (induction xs n rule: get_tasks_loop.induct)
  case (1 it sz)
  show ?case
  proof (cases "it = []")
    case True
    then show ?thesis using 1(2) by (simp add: get_tasks_loop_Nil)
  next
    case False
    have ih: "length (get_tasks_loop (drop sz it) sz) = (length (drop sz it) + sz - 1) div sz"
      using 1 False by simp
    show ?thesis
    proof (cases "length it \<le> sz")
      case True
      obtain m where m: "length it = Suc m" using False by (cases it) auto
      have "(length it + sz - 1) div sz = (m + sz) div sz" using m by simp
      also have "\<dots> = Suc (m div sz)" using 1(2) by (subst div_add_self2) simp_all
      also have "m div sz = 0" using True m by simp
      finally have "(length it + sz - 1) div sz = 1" by simp
      with True ih False 1(2) show ?thesis by (simp add: get_tasks_loop_step)
    next
      case F2: False
      have "length it + sz - 1 = (length it - sz + sz - 1) + sz" using F2 1(2) by simp
      then have "(length it + sz - 1) div sz = Suc ((length it - sz + sz - 1) div sz)"
        using 1(2) by (simp only:) (subst div_add_self2, simp_all)
      with ih False 1(2) show ?thesis by (simp add: get_tasks_loop_step)
    qed
  qed
qed

lemma nth_get_tasks_loop:
  "0 < n \<Longrightarrow> i < length (get_tasks_loop xs n) \<Longrightarrow> get_tasks_loop xs n ! i = take n (drop (i * n) xs)"
proof (induction xs n arbitrary: i rule: get_tasks_loop.induct)
  case (1 it sz)
  show ?case
  proof (cases "it = []")
    case True
    then show ?thesis using 1 by (simp add: get_tasks_loop_Nil)
  next
    case False
    show ?thesis
    proof (cases i)
      case 0
      then show ?thesis using False 1(2) by (simp add: get_tasks_loop_step)
    next
      case (Suc j)
      then have "j < length (get_tasks_loop (drop sz it) sz)"
        using 1(3) False 1(2) by (simp add: get_tasks_loop_step)
      then have "get_tasks_loop (drop sz it) sz ! j = take sz (drop (j * sz) (drop sz it))"
        using 1 False by simp
      then show ?thesis using Suc False 1(2) by (simp add: get_tasks_loop_step add.commute)
    qed
  qed
qed

lemma ceil_div_cases:
  "0 < c \<Longrightarrow> (n + c - 1) div c = (if n mod c = 0 then n div c else Suc (n div c))" for n c :: nat
proof -
  assume c: "0 < c"
  then obtain d where d: "c = Suc d" by (cases c) auto
  define q where "q = n div c"
  define r where "r = n mod c"
  have n: "n = r + q * c" by (simp add: q_def r_def)
  have r: "r < c" using c by (simp add: r_def)
  show ?thesis
  proof (cases "r = 0")
    case True
    have "n + c - 1 = d + q * c" using n True d by simp
    moreover have "(d + q * c) div c = q + d div c" using c by (intro div_mult_self1) simp
    moreover have "d div c = 0" using d by simp
    ultimately show ?thesis using True by (simp add: q_def r_def)
  next
    case False
    then obtain r' where r': "r = Suc r'" by (cases r) auto
    have "n + c - 1 = r' + Suc q * c" using n r' d by simp
    moreover have "(r' + Suc q * c) div c = Suc q + r' div c" using c by (intro div_mult_self1) simp
    moreover have "r' div c = 0" using r r' by simp
    ultimately show ?thesis using False by (simp add: q_def r_def)
  qed
qed

lemma ceiling_as_div:
  "0 < c \<Longrightarrow> \<lceil>real n / real c\<rceil> = int ((n + c - 1) div c)"
proof -
  assume c: "0 < c"
  have "\<lceil>real n / real c\<rceil> = - (- int n div int c)"
    using ceiling_divide_eq_div [of "int n" "int c"] by simp
  also have "\<dots> = (if int n mod int c = 0 then int n div int c else int n div int c + 1)"
    using c by (simp add: zdiv_zminus1_eq_if)
  also have "\<dots> = int (if n mod c = 0 then n div c else Suc (n div c))"
    by (simp add: zdiv_int flip: zmod_int)
  finally show ?thesis using c by (simp only: ceil_div_cases)
qed

lemma length_py_range:
  "1 \<le> C \<Longrightarrow> py_range 0 (int n) C = Inr (map (\<lambda>k. int k * C) [0..<(n + nat C - 1) div nat C])"
proof -
  assume C: "1 \<le> C"
  have "int n + C - 1 = int (n + nat C - 1)" using C by simp
  then have "(int n + C - 1) div C = int ((n + nat C - 1) div nat C)"
    using C by (simp add: zdiv_int)
  then show ?thesis using C by (simp add: py_range_def)
qed

lemma get_tasks_from_query_pos:
  "1 \<le> C \<Longrightarrow> get_tasks_from_query q C =
     Inr (map (\<lambda>k. limit_offset q C (int k * C)) [0..<(count_rows q + nat C - 1) div nat C])"
  by (simp add: get_tasks_from_query_def length_py_range comp_def)

lemma get_tasks_loop_as_map:
  "0 < n \<Longrightarrow> get_tasks_loop xs n = map (\<lambda>k. take n (drop (k * n) xs)) [0..<(length xs + n - 1) div n]"
  by (rule nth_equalityI) (simp_all add: length_get_tasks_loop nth_get_tasks_loop)

lemma window_nat: "1 \<le> C \<Longrightarrow> window rows C (int k * C) = take (nat C) (drop (k * nat C) rows)"
  by (simp add: window_def nat_mult_distrib)

lemma get_tasks_from_query_rows:
  "1 \<le> C \<Longrightarrow> get_tasks_from_query (query_of_rows rows) C = Inr (get_tasks_loop rows (nat C))"
  by (simp add: get_tasks_from_query_pos get_tasks_loop_as_map query_of_rows_def window_nat)

lemma imap_unordered_pos:
  assumes "1 \<le> chunksize"
    and "(iterable = Plain xs \<and> chunksize \<le> int maxsize)
         \<or> iterable = SelectQuery (query_of_rows xs)"
  shows "imap_unordered maxsize iterable chunksize
           = Inr (enumerate 0 (get_tasks_loop xs (nat chunksize)))"
  using assms by (auto simp: imap_unordered_def get_tasks_def get_tasks_from_query_rows)




lemma length_window_inner:
  fixes n c i :: nat
  assumes "0 < c" and "Suc i < (n + c - 1) div c"
  shows "Suc i * c \<le> n"
proof -
  have "(n + c - 1) div c \<le> Suc (n div c)" using ceil_div_cases [OF assms(1), of n] by simp
  then have "Suc i \<le> n div c" using assms(2) by simp
  then have "Suc i * c \<le> n div c * c" by (rule mult_le_mono1)
  also have "\<dots> \<le> n" by simp
  finally show ?thesis .
qed

lemma length_window_last:
  fixes n c :: nat
  assumes "0 < c" and "0 < n"
  shows "n - ((n + c - 1) div c - 1) * c = (if n mod c = 0 then c else n mod c)"
proof (cases "n mod c = 0")
  case True
  then obtain q where q: "n = q * c" using div_mult_mod_eq [of n c] by (metis add.right_neutral)
  then have "0 < q" using assms(2) by (cases q) auto
  then obtain q' where q': "q = Suc q'" by (cases q) auto
  have "(n + c - 1) div c = q" using ceil_div_cases [OF assms(1), of n] True q assms(1) by simp
  then show ?thesis using True q q' by simp
next
  case False
  then have "(n + c - 1) div c - 1 = n div c" using ceil_div_cases [OF assms(1), of n] by simp
  then show ?thesis using False by (simp add: minus_div_mult_eq_mod)
qed

text \<open>
  Claim C4, as the code has it. For every paginated source that reports \<open>count\<close> rows and
  every chunk size \<open>C\<close> of at least 1, the chunk source gives \<open>\<lceil>count / C\<rceil>\<close> chunks and
  chunk \<open>i\<close> is the window of limit \<open>C\<close> at offset \<open>i * C\<close>. When the source holds exactly
  the rows it counts (its windows are the slices of \<open>rows\<close> and \<open>count\<close> is their number),
  every chunk but the last has \<open>C\<close> items, and the last has \<open>count mod C\<close> items, or \<open>C\<close>
  when \<open>C\<close> divides \<open>count\<close>.
\<close>

theorem query_chunk_count_and_sizes:
  assumes "1 \<le> chunksize"
  shows "\<exists>chunks. get_tasks_from_query query chunksize = Inr chunks
           \<and> int (length chunks)
               = \<lceil>real (count_rows query) / real_of_int chunksize\<rceil>
           \<and> (\<forall>i<length chunks.
                 chunks ! i = limit_offset query chunksize (int i * chunksize))
           \<and> (count_rows query = length rows \<and> limit_offset query = window rows \<longrightarrow>
                 (\<forall>i. Suc i < length chunks \<longrightarrow> int (length (chunks ! i)) = chunksize)
                 \<and> (chunks \<noteq> [] \<longrightarrow>
                       int (length (last chunks))
                         = (if int (count_rows query) mod chunksize = 0 then chunksize
                            else int (count_rows query) mod chunksize)))"
proof -
  let ?c = "nat chunksize"
  let ?n = "length rows"
  let ?L = "(count_rows query + ?c - 1) div ?c"
  let ?chunks = "map (\<lambda>k. limit_offset query chunksize (int k * chunksize)) [0..<?L]"
  have c: "0 < ?c" using assms by simp
  have cc: "int ?c = chunksize" using assms by simp
  have rc: "real_of_int chunksize = real ?c" using assms by simp
  have 1: "get_tasks_from_query query chunksize = Inr ?chunks"
    using assms by (rule get_tasks_from_query_pos)
  have 2: "int (length ?chunks) = \<lceil>real (count_rows query) / real_of_int chunksize\<rceil>"
    unfolding rc using ceiling_as_div [OF c, of "count_rows query"] by simp
  have 3: "\<forall>i<length ?chunks. ?chunks ! i = limit_offset query chunksize (int i * chunksize)"
    by simp
  have 45: "(\<forall>i. Suc i < length ?chunks \<longrightarrow> int (length (?chunks ! i)) = chunksize)
          \<and> (?chunks \<noteq> [] \<longrightarrow>
                int (length (last ?chunks))
                  = (if int (count_rows query) mod chunksize = 0 then chunksize
                     else int (count_rows query) mod chunksize))"
    if cons: "count_rows query = length rows \<and> limit_offset query = window rows"
  proof -
    have cn: "count_rows query = ?n" and lw: "limit_offset query = window rows"
      using cons by simp_all
    have ch: "?chunks = map (\<lambda>k. take ?c (drop (k * ?c) rows)) [0..<(?n + ?c - 1) div ?c]"
      using assms by (simp add: lw cn window_nat)
    have 4: "\<forall>i. Suc i < length ?chunks \<longrightarrow> int (length (?chunks ! i)) = chunksize"
    proof (intro allI impI)
      fix i assume i: "Suc i < length ?chunks"
      then have i': "Suc i < (?n + ?c - 1) div ?c" by (simp add: cn)
      then have "Suc i * ?c \<le> ?n" using length_window_inner [OF c, of i ?n] by simp
      then have "?c \<le> ?n - i * ?c" by simp
      then have "length (take ?c (drop (i * ?c) rows)) = ?c" by simp
      moreover have "?chunks ! i = take ?c (drop (i * ?c) rows)"
        unfolding ch using i' by simp
      ultimately show "int (length (?chunks ! i)) = chunksize" using cc by simp
    qed
    have 5: "?chunks \<noteq> [] \<longrightarrow> int (length (last ?chunks))
             = (if int (count_rows query) mod chunksize = 0 then chunksize
                else int (count_rows query) mod chunksize)"
    proof
      assume ne: "?chunks \<noteq> []"
      then have L: "0 < (?n + ?c - 1) div ?c" by (simp add: cn)
      then have n: "0 < ?n" using c by (cases rows) auto
      have "last ?chunks = take ?c (drop (((?n + ?c - 1) div ?c - 1) * ?c) rows)"
        unfolding ch using L by (simp add: last_map last_upt)
      then have "length (last ?chunks) = min ?c (?n - ((?n + ?c - 1) div ?c - 1) * ?c)"
        by (simp add: min.commute)
      also have "\<dots> = (if ?n mod ?c = 0 then ?c else ?n mod ?c)"
        using length_window_last [OF c n] mod_less_divisor [OF c, of ?n] by (simp add: min_def)
      finally have "int (length (last ?chunks))
                      = (if ?n mod ?c = 0 then int ?c else int (?n mod ?c))"
        by simp
      then show "int (length (last ?chunks))
             = (if int (count_rows query) mod chunksize = 0 then chunksize
                else int (count_rows query) mod chunksize)"
        unfolding cn using cc by (metis of_nat_mod of_nat_eq_0_iff)
    qed
    show ?thesis using 4 5 by blast
  qed
  show ?thesis using 1 2 3 45 by blast
qed

text \<open>The same for a source that holds the five rows it counts, in chunks of two.\<close>

theorem query_chunk_count_and_sizes_witness:
  "(1::int) \<le> 2
   \<and> count_rows (query_of_rows [10, 20, 30, 40, 50 :: nat]) = length [10, 20, 30, 40, 50 :: nat]
   \<and> limit_offset (query_of_rows [10, 20, 30, 40, 50 :: nat]) = window [10, 20, 30, 40, 50]
   \<and> get_tasks_from_query (query_of_rows [10, 20, 30, 40, 50 :: nat]) 2 = Inr [[10, 20], [30, 40], [50]]
   \<and> \<lceil>real (5::nat) / real_of_int 2\<rceil> = 3"
proof -
  have h: "(1::int) \<le> 2" by simp
  have e: "get_tasks_from_query (query_of_rows [10, 20, 30, 40, 50 :: nat]) 2
             = Inr [[10, 20], [30, 40], [50]]"
    by code_simp
  have f: "\<lceil>real (5::nat) / real_of_int 2\<rceil> = 3" by (simp add: ceiling_eq_iff)
  show ?thesis
    using query_chunk_count_and_sizes
            [OF h, of "query_of_rows [10, 20, 30, 40, 50 :: nat]" "[10, 20, 30, 40, 50]"] e f
    by (simp add: query_of_rows_def)
qed

text \<open>
  Claim C4 as stated fails: a source that reports four rows and has three gives, in chunks
  of two, a last chunk of one item, where the claim has two (2 divides 4).
\<close>

theorem last_chunk_of_miscounting_source:
  "get_tasks_from_query \<lparr>count_rows = 4, limit_offset = window [1, 2, 3 :: nat]\<rparr> 2
     = Inr [[1, 2], [3]]"
  by code_simp


section \<open>Properties of the orchestrator\<close>

lemma results_of_Inr [simp]: "results_of (Inr b) = fst b"
  by (cases b) simp

lemma reports_of_Inr [simp]: "reports_of (Inr b) = snd b"
  by (cases b) simp

lemma fst_batch_except [simp]: "fst (batch_except e s) = []"
  by (simp add: batch_except_def split: list.splits pyval.splits)

lemma batch_except_keeps:
  "reporter (snd (snd (batch_except e s))) = reporter s"
  "bar_steps (snd (snd (batch_except e s))) = bar_steps s"
  "bar_finished (snd (snd (batch_except e s))) = bar_finished s"
  by (simp_all add: batch_except_def split: list.splits pyval.splits)


lemma accepting_barI: "\<forall>steps call. bar steps call = None \<Longrightarrow> bar = accepting_bar"
  by (simp add: fun_eq_iff accepting_bar_def)

lemma batch_finish_accepted:
  "bar (bar_steps s) None = None \<Longrightarrow>
     batch_finish bar s = ([], StopIteration, s\<lparr>bar_finished := True, pool_terminated := True\<rparr>)"
  by (simp add: batch_finish_def)

lemma batch_loop_reporter:
  "reporter (snd (snd (batch_loop accepting_bar stream s)))
     = reporter s @ concat (map reports_of (takeWhile (\<lambda>a. \<not> isl a) stream))"
  unfolding accepting_bar_def
proof (induction stream arbitrary: s)
  case Nil
  show ?case by (simp add: batch_finish_def)
next
  case (Cons a stream)
  show ?case
  proof (cases a)
    case (Inl e)
    then show ?thesis by (simp add: batch_finish_def batch_except_keeps)
  next
    case (Inr b)
    then show ?thesis
      by (cases b) (simp add: Let_def split_beta reporter_merge_def Cons.IH)
  qed
qed

lemma batch_loop_bar_steps:
  "bar_steps (snd (snd (batch_loop accepting_bar stream s)))
     = bar_steps s @ map (\<lambda>a. length (results_of a)) (takeWhile (\<lambda>a. \<not> isl a) stream)"
  unfolding accepting_bar_def
proof (induction stream arbitrary: s)
  case Nil
  show ?case by (simp add: batch_finish_def)
next
  case (Cons a stream)
  show ?case
  proof (cases a)
    case (Inl e)
    then show ?thesis by (simp add: batch_finish_def batch_except_keeps)
  next
    case (Inr b)
    then show ?thesis
      by (cases b) (simp add: Let_def split_beta Cons.IH)
  qed
qed

lemma batch_loop_bar_finished:
  "\<forall>e. Inl e \<in> set stream \<longrightarrow> cls e \<noteq> StopIterationExc \<Longrightarrow>
   bar_finished (snd (snd (batch_loop accepting_bar stream s)))
     \<longleftrightarrow> bar_finished s \<or> (\<forall>a\<in>set stream. \<not> isl a)"
  unfolding accepting_bar_def
proof (induction stream arbitrary: s)
  case Nil
  show ?case by (simp add: batch_finish_def)
next
  case (Cons a stream)
  show ?case
  proof (cases a)
    case (Inl e)
    then show ?thesis using Cons.prems by (simp add: batch_except_keeps)
  next
    case (Inr b)
    have "\<forall>e. Inl e \<in> set stream \<longrightarrow> cls e \<noteq> StopIterationExc" using Cons.prems by simp
    then show ?thesis
      using Inr by (cases b) (simp add: Let_def split_beta Cons.IH)
  qed
qed

lemma batch_loop_ending_ok:
  "\<forall>a\<in>set stream. \<not> isl a \<Longrightarrow>
   fst (snd (batch_loop accepting_bar stream s)) = StopIteration"
  unfolding accepting_bar_def
proof (induction stream arbitrary: s)
  case Nil
  show ?case by (simp add: batch_finish_def)
next
  case (Cons a stream)
  then obtain b where a: "a = Inr b" by (cases a) auto
  have "\<forall>a\<in>set stream. \<not> isl a" using Cons.prems by simp
  then show ?case
    by (cases b) (simp add: a Let_def split_beta Cons.IH)
qed

lemma batch_loop_yielded:
  "map fst (fst (batch_loop accepting_bar stream s))
     = concat (map results_of (takeWhile (\<lambda>a. \<not> isl a) stream))"
  unfolding accepting_bar_def
proof (induction stream arbitrary: s)
  case Nil
  show ?case by (simp add: batch_finish_def)
next
  case (Cons a stream)
  show ?case
  proof (cases a)
    case (Inl e)
    then show ?thesis by (simp add: batch_finish_def)
  next
    case (Inr b)
    then show ?thesis
      by (cases b) (simp add: Let_def split_beta comp_def Cons.IH)
  qed
qed

lemma batch_loop_append_snd:
  "snd (batch_loop accepting_bar (map Inr pre @ rest) s)
     = snd (batch_loop accepting_bar rest
               (s\<lparr>reporter := reporter s @ concat (map snd pre),
                  bar_steps := bar_steps s @ map (\<lambda>b. length (fst b)) pre\<rparr>))"
  unfolding accepting_bar_def
proof (induction pre arbitrary: s)
  case Nil
  then show ?case by simp
next
  case (Cons b pre)
  obtain results reports where b: "b = (results, reports)" by (cases b)
  show ?case
    by (simp add: b Let_def split_beta Cons.IH reporter_merge_def)
qed






text \<open>
  Claim C6, as the code has it. With a progress bar that accepts its calls, when every
  chunk comes back with results, \<open>batch\<close> takes the batches in their order of arrival: it
  yields the result items of each batch one by one, appends the reports of each batch to
  the main Reporter, calls the progress bar once for each batch with the number of its
  results, and after the last batch finishes the bar and ends the generator normally.
\<close>

theorem batch_streams_each_result_batch:
  assumes "\<forall>steps call. bar steps call = None"
  shows "map fst (fst (batch bar reporter0 (map Inr batches))) = concat (map fst batches)
   \<and> snd (batch bar reporter0 (map Inr batches))
       = (StopIteration,
          \<lparr>reporter = reporter0 @ concat (map snd batches),
           bar_steps = map (\<lambda>b. length (fst b)) batches,
           bar_finished = True, stdout = [], pool_terminated = True\<rparr>)"
proof -
  have bar: "bar = accepting_bar" using assms by (rule accepting_barI)
  have "map fst (fst (batch bar reporter0 (map Inr batches))) = concat (map fst batches)"
    unfolding bar
    by (simp add: batch_def batch_loop_yielded comp_def takeWhile_eq_all_conv[THEN iffD2])
  moreover have "snd (batch bar reporter0 (map Inr batches))
       = (StopIteration,
          \<lparr>reporter = reporter0 @ concat (map snd batches),
           bar_steps = map (\<lambda>b. length (fst b)) batches,
           bar_finished = True, stdout = [], pool_terminated = True\<rparr>)"
    unfolding bar using batch_loop_append_snd [of batches "[]"]
    by (simp add: batch_def batch_finish_accepted accepting_bar_def)
  ultimately show ?thesis by simp
qed

text \<open>
  Claim C6 at a concrete stream of two batches.
\<close>

theorem batch_streams_each_result_batch_witness:
  "(\<forall>steps call. accepting_bar steps call = None)
   \<and> map fst (fst (batch accepting_bar ([] :: string list)
      [Inr ([3 :: nat], [''c'']), Inr ([1, 2], [''a'', ''b''])])) = [3, 1, 2]
   \<and> snd (batch accepting_bar ([] :: string list)
      [Inr ([3 :: nat], [''c'']), Inr ([1, 2], [''a'', ''b''])])
       = (StopIteration,
          \<lparr>reporter = [''c'', ''a'', ''b''], bar_steps = [1, 2], bar_finished = True,
           stdout = [], pool_terminated = True\<rparr>)"
proof -
  have h: "\<forall>steps call. accepting_bar steps call = None" by (simp add: accepting_bar_def)
  have "map fst (fst (batch accepting_bar ([] :: string list)
      [Inr ([3 :: nat], [''c'']), Inr ([1, 2], [''a'', ''b''])])) = [3, 1, 2]
   \<and> snd (batch accepting_bar ([] :: string list)
      [Inr ([3 :: nat], [''c'']), Inr ([1, 2], [''a'', ''b''])])
       = (StopIteration,
          \<lparr>reporter = [''c'', ''a'', ''b''], bar_steps = [1, 2], bar_finished = True,
           stdout = [], pool_terminated = True\<rparr>)"
    using batch_streams_each_result_batch
          [OF h, of "[] :: string list" "[([3 :: nat], [''c'']), ([1, 2], [''a'', ''b''])]"]
    by (simp add: numeral_2_eq_2)
  then show ?thesis using h by blast
qed

text \<open>
  Claim C6 as stated fails: in a call that leaves \<^verbatim>\<open>total\<close> at \<^verbatim>\<open>None\<close> the first call of
  the progress bar raises inside the \<^verbatim>\<open>try\<close> block. Of two batches of results the first
  is merged, nothing is yielded, the bar is neither stepped nor finished, and the
  generator ends.
\<close>

theorem batch_without_total_yields_nothing:
  "fst (batch bar_without_total ([] :: string list)
          [Inr ([3 :: nat], [''c'']), Inr ([1, 2], [''a'', ''b''])]) = []
   \<and> fst (snd (batch bar_without_total ([] :: string list)
          [Inr ([3 :: nat], [''c'']), Inr ([1, 2], [''a'', ''b''])])) = StopIteration
   \<and> reporter (snd (snd (batch bar_without_total ([] :: string list)
          [Inr ([3 :: nat], [''c'']), Inr ([1, 2], [''a'', ''b''])]))) = [''c'']
   \<and> bar_steps (snd (snd (batch bar_without_total ([] :: string list)
          [Inr ([3 :: nat], [''c'']), Inr ([1, 2], [''a'', ''b''])]))) = []
   \<and> \<not> bar_finished (snd (snd (batch bar_without_total ([] :: string list)
          [Inr ([3 :: nat], [''c'']), Inr ([1, 2], [''a'', ''b''])])))"
  by (simp add: batch_def bar_without_total_def batch_except_def reporter_merge_def)


section \<open>Properties of a whole run\<close>

lemma collect_report_results:
  assumes "\<forall>chunk rep results rep'. func chunk rep = (Inr results, rep') \<longrightarrow> length results = length chunk"
  shows "length (results_of (fst (collect_report func chunk rep)))
           = (if isl (fst (collect_report func chunk rep)) then 0 else length chunk)"
  using assms by (auto simp: collect_report_def Let_def split: prod.splits sum.splits)

lemma collect_report_raised:
  "fst (collect_report func chunk rep) = Inl e \<Longrightarrow> \<exists>rep'. func chunk rep = (Inl e, rep')"
  by (auto simp: collect_report_def Let_def split: prod.splits sum.splits)

lemma run_tasks_Cons:
  "\<exists>reps'. run_tasks func reps ((w, chunk) # tasks)
              = fst (collect_report func chunk (reps w)) # run_tasks func reps' tasks
           \<and> (\<not> isl (fst (collect_report func chunk (reps w)))
                \<longrightarrow> reps' = reps(w := snd (collect_report func chunk (reps w))))"
  by (cases "collect_report func chunk (reps w)") (auto split: sum.splits)

lemma run_tasks_results_sum:
  assumes "\<forall>chunk rep results rep'. func chunk rep = (Inr results, rep') \<longrightarrow> length results = length chunk"
  shows "sum_list (map (\<lambda>a. length (results_of a)) (run_tasks func reps tasks))
           \<le> sum_list (map (\<lambda>t. length (snd t)) tasks)
         \<and> ((\<forall>a\<in>set (run_tasks func reps tasks). \<not> isl a) \<longrightarrow>
              sum_list (map (\<lambda>a. length (results_of a)) (run_tasks func reps tasks))
                = sum_list (map (\<lambda>t. length (snd t)) tasks))"
proof (induction tasks arbitrary: reps)
  case Nil
  then show ?case by simp
next
  case (Cons t tasks)
  obtain w chunk where t: "t = (w, chunk)" by (cases t)
  define answer where "answer = fst (collect_report func chunk (reps w))"
  obtain reps' where r: "run_tasks func reps (t # tasks) = answer # run_tasks func reps' tasks"
    using run_tasks_Cons [of func reps w chunk tasks] by (auto simp: t answer_def)
  have l: "length (results_of answer) = (if isl answer then 0 else length chunk)"
    using collect_report_results [OF assms, of chunk "reps w"] by (simp add: answer_def)
  show ?case
    unfolding r using Cons.IH [of reps'] l by (auto simp: t)
qed

lemma run_tasks_raised:
  "Inl e \<in> set (run_tasks func reps tasks) \<Longrightarrow> \<exists>chunk rep rep'. func chunk rep = (Inl e, rep')"
proof (induction tasks arbitrary: reps)
  case Nil
  then show ?case by simp
next
  case (Cons t tasks)
  obtain w chunk where t: "t = (w, chunk)" by (cases t)
  obtain reps' where r: "run_tasks func reps (t # tasks)
      = fst (collect_report func chunk (reps w)) # run_tasks func reps' tasks"
    using run_tasks_Cons [of func reps w chunk tasks] by (auto simp: t)
  from Cons.prems have "fst (collect_report func chunk (reps w)) = Inl e
      \<or> Inl e \<in> set (run_tasks func reps' tasks)"
    unfolding r by auto
  then show ?case
  proof
    assume "fst (collect_report func chunk (reps w)) = Inl e"
    then show ?thesis using collect_report_raised by blast
  next
    assume "Inl e \<in> set (run_tasks func reps' tasks)"
    then show ?thesis by (rule Cons.IH)
  qed
qed

lemma sum_list_takeWhile_le:
  "sum_list (map f (takeWhile P xs)) \<le> sum_list (map f xs)" for f :: "'a \<Rightarrow> nat"
  by (induction xs) auto

lemma sum_list_map_mset:
  "mset xs = mset ys \<Longrightarrow> sum_list (map f xs) = sum_list (map f ys)" for f :: "'a \<Rightarrow> nat"
proof -
  assume "mset xs = mset ys"
  then have "mset (map f xs) = mset (map f ys)" by (metis mset_map)
  then show ?thesis by (metis sum_mset_sum_list)
qed

lemma tasks_total_length:
  assumes "1 \<le> chunksize"
    and "(iterable = Plain xs \<and> chunksize \<le> int maxsize)
         \<or> iterable = SelectQuery (query_of_rows xs)"
    and "imap_unordered maxsize iterable chunksize = Inr tasks" and "length sched = length tasks"
  shows "sum_list (map (\<lambda>t. length (snd t)) (zip sched (map snd tasks))) = length xs"
proof -
  have "tasks = enumerate 0 (get_tasks_loop xs (nat chunksize))"
    using imap_unordered_pos [OF assms(1,2)] assms(3) by simp
  then have "concat (map snd tasks) = xs"
    using assms(1) by (simp add: concat_get_tasks_loop)
  moreover have "map snd (zip sched (map snd tasks)) = map snd tasks"
    using assms(4) by (simp add: map_snd_zip)
  moreover have "sum_list (map (\<lambda>t. length (snd t)) (zip sched (map snd tasks)))
      = length (concat (map snd (zip sched (map snd tasks))))"
    by (simp add: length_concat comp_def)
  ultimately show ?thesis by simp
qed

lemma delivers_set:
  "delivers func reps sched tasks stream \<Longrightarrow>
     set stream = set (run_tasks func reps (zip sched (map snd tasks)))"
  by (simp add: delivers_def) (metis set_mset_mset)

text \<open>
  Claim C8, as the code has it. For a batch over the \<open>length xs\<close> items of \<open>xs\<close>, with a
  chunk size in the range of the chunk source, a progress bar that accepts its calls, and
  a user function that returns one result for each item of its chunk whenever it returns
  and never raises \<^verbatim>\<open>StopIteration\<close>, whatever the assignment of tasks to workers and the
  order of arrival of the answers: the steps given to the progress bar sum to at most
  \<open>length xs\<close>; when every chunk comes back with results they sum to exactly \<open>length xs\<close>,
  the bar is finished and the generator ends normally; when a chunk comes back with an
  exception the bar has exactly the steps of the batches that arrived before it and is
  not finished.
\<close>

theorem progress_steps_sum:
  fixes func :: "('a, 'r, 'e) user_func"
  assumes "1 \<le> chunksize"
    and "(iterable = Plain xs \<and> chunksize \<le> int maxsize)
         \<or> iterable = SelectQuery (query_of_rows xs)"
    and "imap_unordered maxsize iterable chunksize = Inr tasks"
    and "\<forall>chunk rep results rep'.
           func chunk rep = (Inr results, rep') \<longrightarrow> length results = length chunk"
    and "\<forall>chunk rep e rep'. func chunk rep = (Inl e, rep') \<longrightarrow> cls e \<noteq> StopIterationExc"
    and "delivers func reps sched tasks stream"
    and "\<forall>steps call. bar steps call = None"
  shows "sum_list (bar_steps (snd (snd (batch bar reporter0 stream)))) \<le> length xs
       \<and> ((\<forall>a\<in>set stream. \<not> isl a) \<longrightarrow>
             fst (snd (batch bar reporter0 stream)) = StopIteration
             \<and> sum_list (bar_steps (snd (snd (batch bar reporter0 stream)))) = length xs
             \<and> bar_finished (snd (snd (batch bar reporter0 stream))))
       \<and> ((\<exists>a\<in>set stream. isl a) \<longrightarrow>
             \<not> bar_finished (snd (snd (batch bar reporter0 stream)))
             \<and> bar_steps (snd (snd (batch bar reporter0 stream)))
                 = map (\<lambda>a. length (results_of a)) (takeWhile (\<lambda>a. \<not> isl a) stream))"
proof -
  let ?answers = "run_tasks func reps (zip sched (map snd tasks))"
  let ?f = "\<lambda>a::('r, 'e) answer. length (results_of a)"
  let ?final = "snd (snd (batch bar reporter0 stream))"
  have bar: "bar = accepting_bar" using assms(7) by (rule accepting_barI)
  have len: "length sched = length tasks" and ms: "mset stream = mset ?answers"
    using assms(6) by (simp_all add: delivers_def)
  have total: "sum_list (map (\<lambda>t. length (snd t)) (zip sched (map snd tasks))) = length xs"
    using assms(1,2,3) len by (rule tasks_total_length)
  have nostop: "\<forall>e. Inl e \<in> set stream \<longrightarrow> cls e \<noteq> StopIterationExc"
    using run_tasks_raised [of _ func reps "zip sched (map snd tasks)"] assms(5)
      delivers_set [OF assms(6)]
    by blast
  have steps: "bar_steps ?final = map ?f (takeWhile (\<lambda>a. \<not> isl a) stream)"
    unfolding bar by (simp add: batch_def batch_loop_bar_steps)
  have fin: "bar_finished ?final \<longleftrightarrow> (\<forall>a\<in>set stream. \<not> isl a)"
    unfolding bar using batch_loop_bar_finished [OF nostop] by (simp add: batch_def)
  have same: "sum_list (map ?f stream) = sum_list (map ?f ?answers)"
    using ms by (rule sum_list_map_mset)
  have "sum_list (bar_steps ?final) \<le> sum_list (map ?f stream)"
    unfolding steps by (rule sum_list_takeWhile_le)
  also have "\<dots> \<le> length xs"
    using run_tasks_results_sum [OF assms(4), of reps "zip sched (map snd tasks)"] same total
    by simp
  finally have 1: "sum_list (bar_steps ?final) \<le> length xs" .
  have 2: "fst (snd (batch bar reporter0 stream)) = StopIteration
             \<and> sum_list (bar_steps ?final) = length xs \<and> bar_finished ?final"
    if ok: "\<forall>a\<in>set stream. \<not> isl a"
  proof -
    have "\<forall>a\<in>set ?answers. \<not> isl a" using ok delivers_set [OF assms(6)] by simp
    then have "sum_list (map ?f ?answers) = length xs"
      using run_tasks_results_sum [OF assms(4), of reps "zip sched (map snd tasks)"] total
      by simp
    then have all: "sum_list (map ?f stream) = length xs" using same by simp
    have tw: "takeWhile (\<lambda>a. \<not> isl a) stream = stream" using ok by simp
    have "bar_steps ?final = map ?f stream" unfolding steps tw ..
    then have "sum_list (bar_steps ?final) = length xs" using all by simp
    moreover have "fst (snd (batch bar reporter0 stream)) = StopIteration"
      unfolding bar using ok by (simp add: batch_def batch_loop_ending_ok)
    moreover have "bar_finished ?final" using ok fin by simp
    ultimately show ?thesis by simp
  qed
  have 3: "\<not> bar_finished ?final" if "\<exists>a\<in>set stream. isl a"
    using that fin by simp
  show ?thesis using 1 2 3 steps by blast
qed

text \<open>
  Claim C8 at a concrete run: four items in chunks of two, the second chunk raises and its
  exception arrives after the first batch.
\<close>

theorem progress_steps_sum_witness:
  "delivers refuse_13 fresh_reporters [0, 1] [(0, [10, 20]), (1, [13, 40])]
     [Inr ([10, 20], [''seen'', ''seen'']), Inl (Exc OtherException [PyStr ''bad item''] True)]
   \<and> (\<forall>steps call. accepting_bar steps call = None)
   \<and> bar_steps (snd (snd (batch accepting_bar ([] :: string list)
        [Inr ([10, 20 :: nat], [''seen'', ''seen'']),
         Inl (Exc OtherException [PyStr ''bad item''] True)]))) = [2]
   \<and> \<not> bar_finished (snd (snd (batch accepting_bar ([] :: string list)
        [Inr ([10, 20 :: nat], [''seen'', ''seen'']),
         Inl (Exc OtherException [PyStr ''bad item''] True)])))"
proof -
  have h1: "(1::int) \<le> 2" by simp
  have h2: "(Plain [10, 20, 13, 40 :: nat] = Plain [10, 20, 13, 40]
               \<and> (2::int) \<le> int 9223372036854775807)
            \<or> Plain [10, 20, 13, 40 :: nat] = SelectQuery (query_of_rows [10, 20, 13, 40])"
    by simp
  have l: "get_tasks_loop [10, 20, 13, 40 :: nat] 2 = [[10, 20], [13, 40]]" by code_simp
  have h3: "imap_unordered 9223372036854775807 (Plain [10, 20, 13, 40 :: nat]) 2
              = Inr [(0, [10, 20]), (1, [13, 40])]"
    by (simp add: imap_unordered_def get_tasks_def l)
  have h4: "\<forall>chunk rep results rep'.
              refuse_13 chunk rep = (Inr results, rep') \<longrightarrow> length results = length chunk"
    by (auto simp: refuse_13_def split: if_splits)
  have h5: "\<forall>chunk rep e rep'.
              refuse_13 chunk rep = (Inl e, rep') \<longrightarrow> cls e \<noteq> StopIterationExc"
    by (auto simp: refuse_13_def split: if_splits)
  have h6: "delivers refuse_13 fresh_reporters [0, 1] [(0, [10, 20]), (1, [13, 40])]
     [Inr ([10, 20], [''seen'', ''seen'']), Inl (Exc OtherException [PyStr ''bad item''] True)]"
    by (simp add: delivers_def collect_report_def refuse_13_def fresh_reporters_def
          reporter_clear_def arrives_def)
  have h7: "\<forall>steps call. accepting_bar steps call = None" by (simp add: accepting_bar_def)
  have "bar_steps (snd (snd (batch accepting_bar ([] :: string list)
        [Inr ([10, 20 :: nat], [''seen'', ''seen'']),
         Inl (Exc OtherException [PyStr ''bad item''] True)]))) = [2]
   \<and> \<not> bar_finished (snd (snd (batch accepting_bar ([] :: string list)
        [Inr ([10, 20 :: nat], [''seen'', ''seen'']),
         Inl (Exc OtherException [PyStr ''bad item''] True)])))"
    using progress_steps_sum [OF h1 h2 h3 h4 h5 h6 h7, of "[]"] by simp
  then show ?thesis using h6 h7 by blast
qed

text \<open>
  Claim C8 as stated fails: the user function raises \<^verbatim>\<open>StopIteration\<close> on the chunk
  \<^verbatim>\<open>[13]\<close>. When that answer arrives first, the \<^verbatim>\<open>for\<close> loop ends as if the stream were
  exhausted: the bar is finished although it received no step for the two items, and the
  batch of the other chunk is never read.
\<close>

theorem stop_iteration_finishes_bar_early:
  "run_tasks stop_at_13 fresh_reporters [(0, [13]), (1, [1])]
     = [Inl (Exc StopIterationExc [] True), Inr ([1], [''seen''])]
   \<and> batch accepting_bar ([] :: string list)
        [Inl (Exc StopIterationExc [] True), Inr ([1 :: nat], [''seen''])]
       = ([], StopIteration,
          \<lparr>reporter = [], bar_steps = [], bar_finished = True, stdout = [],
           pool_terminated = True\<rparr>)"
  by (simp add: collect_report_def stop_at_13_def fresh_reporters_def reporter_clear_def
        batch_def batch_finish_def accepting_bar_def)

lemma collect_report_reports:
  assumes "\<forall>chunk rep results rep'.
             func chunk rep = (Inr results, rep') \<longrightarrow> length rep' = length rep + length chunk"
    and "\<not> isl (fst (collect_report func chunk rep))"
  shows "length (reports_of (fst (collect_report func chunk rep))) = length rep + length chunk
         \<and> snd (collect_report func chunk rep) = []"
  using assms
  by (auto simp: collect_report_def Let_def reporter_clear_def split: prod.splits sum.splits)

lemma run_tasks_reports_sum:
  assumes "\<forall>chunk rep results rep'.
             func chunk rep = (Inr results, rep') \<longrightarrow> length rep' = length rep + length chunk"
    and "\<forall>w. reps w = []"
    and "\<forall>a\<in>set (run_tasks func reps tasks). \<not> isl a"
  shows "sum_list (map (\<lambda>a. length (reports_of a)) (run_tasks func reps tasks))
           = sum_list (map (\<lambda>t. length (snd t)) tasks)"
  using assms(2,3)
proof (induction tasks arbitrary: reps)
  case Nil
  then show ?case by simp
next
  case (Cons t tasks)
  obtain w chunk where t: "t = (w, chunk)" by (cases t)
  define answer where "answer = fst (collect_report func chunk (reps w))"
  define rep' where "rep' = snd (collect_report func chunk (reps w))"
  obtain reps' where r: "run_tasks func reps (t # tasks) = answer # run_tasks func reps' tasks"
    and r': "\<not> isl answer \<longrightarrow> reps' = reps(w := rep')"
    using run_tasks_Cons [of func reps w chunk tasks] by (auto simp: t answer_def rep'_def)
  have ok: "\<not> isl answer" and oks: "\<forall>a\<in>set (run_tasks func reps' tasks). \<not> isl a"
    using Cons.prems(2) unfolding r by simp_all
  have "length (reports_of answer) = length (reps w) + length chunk \<and> rep' = []"
    using collect_report_reports [OF assms(1), of chunk "reps w"] ok
    by (simp add: answer_def rep'_def)
  then have l: "length (reports_of answer) = length chunk" and e: "rep' = []"
    using Cons.prems(1) by simp_all
  have "\<forall>w. reps' w = []" using Cons.prems(1) e r' ok by simp
  then have "sum_list (map (\<lambda>a. length (reports_of a)) (run_tasks func reps' tasks))
           = sum_list (map (\<lambda>t. length (snd t)) tasks)"
    using oks by (rule Cons.IH)
  then show ?case unfolding r using l by (simp add: t)
qed

text \<open>
  Claim C7, as the code has it. If the user function adds one entry to its Reporter for
  each item of its chunk, the Reporters of the workers start empty, the chunk size is in
  the range of the chunk source, the progress bar accepts its calls and every chunk comes
  back with results, then after the batch over the items of \<open>xs\<close> the main Reporter has
  \<open>length xs\<close> entries more than it had before (exactly \<open>length xs\<close> when it started empty),
  for every assignment of tasks to workers and every order of arrival.
\<close>

theorem report_completeness:
  fixes func :: "('a, 'r, 'e) user_func"
  assumes "1 \<le> chunksize"
    and "(iterable = Plain xs \<and> chunksize \<le> int maxsize)
         \<or> iterable = SelectQuery (query_of_rows xs)"
    and "imap_unordered maxsize iterable chunksize = Inr tasks"
    and "\<forall>chunk rep results rep'.
           func chunk rep = (Inr results, rep') \<longrightarrow> length rep' = length rep + length chunk"
    and "delivers func fresh_reporters sched tasks stream"
    and "\<forall>a\<in>set stream. \<not> isl a"
    and "\<forall>steps call. bar steps call = None"
  shows "fst (snd (batch bar reporter0 stream)) = StopIteration
       \<and> length (reporter (snd (snd (batch bar reporter0 stream))))
           = length reporter0 + length xs"
proof -
  let ?answers = "run_tasks func fresh_reporters (zip sched (map snd tasks))"
  let ?g = "\<lambda>a::('r, 'e) answer. length (reports_of a)"
  have bar: "bar = accepting_bar" using assms(7) by (rule accepting_barI)
  have len: "length sched = length tasks" and ms: "mset stream = mset ?answers"
    using assms(5) by (simp_all add: delivers_def)
  have total: "sum_list (map (\<lambda>t. length (snd t)) (zip sched (map snd tasks))) = length xs"
    using assms(1,2,3) len by (rule tasks_total_length)
  have oks: "\<forall>a\<in>set ?answers. \<not> isl a" using assms(6) delivers_set [OF assms(5)] by simp
  have fresh: "\<forall>w. (fresh_reporters :: nat \<Rightarrow> 'e reporter) w = []" by (simp add: fresh_reporters_def)
  have "sum_list (map ?g ?answers) = length xs"
    using run_tasks_reports_sum [OF assms(4) fresh oks] total by simp
  then have sum: "sum_list (map ?g stream) = length xs"
    using sum_list_map_mset [OF ms, of ?g] by simp
  have tw: "takeWhile (\<lambda>a. \<not> isl a) stream = stream" using assms(6) by simp
  have "length (reporter (snd (snd (batch bar reporter0 stream))))
          = length reporter0 + sum_list (map ?g stream)"
    unfolding bar by (simp add: batch_def batch_loop_reporter tw length_concat comp_def)
  moreover have "fst (snd (batch bar reporter0 stream)) = StopIteration"
    unfolding bar using assms(6) by (simp add: batch_def batch_loop_ending_ok)
  ultimately show ?thesis using sum by simp
qed

text \<open>
  Claim C7 at a concrete run: three items in chunks of two, one worker, the second batch
  arriving first.
\<close>

theorem report_completeness_witness:
  "delivers echo_items fresh_reporters [0, 0] [(0, [10, 20]), (1, [30])]
     [Inr ([30], [''seen'']), Inr ([10, 20], [''seen'', ''seen''])]
   \<and> (\<forall>steps call. accepting_bar steps call = None)
   \<and> length (reporter (snd (snd (batch accepting_bar ([] :: string list)
        [Inr ([30 :: nat], [''seen'']), Inr ([10, 20], [''seen'', ''seen''])])))) = 3"
proof -
  have h1: "(1::int) \<le> 2" by simp
  have h2: "(Plain [10, 20, 30 :: nat] = Plain [10, 20, 30] \<and> (2::int) \<le> int 9223372036854775807)
            \<or> Plain [10, 20, 30 :: nat] = SelectQuery (query_of_rows [10, 20, 30])"
    by simp
  have l: "get_tasks_loop [10, 20, 30 :: nat] 2 = [[10, 20], [30]]" by code_simp
  have h3: "imap_unordered 9223372036854775807 (Plain [10, 20, 30 :: nat]) 2
              = Inr [(0, [10, 20]), (1, [30])]"
    by (simp add: imap_unordered_def get_tasks_def l)
  have h4: "\<forall>chunk rep results rep'.
              echo_items chunk rep = (Inr results, rep') \<longrightarrow> length rep' = length rep + length chunk"
    by (auto simp: echo_items_def)
  have h5: "delivers echo_items fresh_reporters [0, 0] [(0, [10, 20]), (1, [30])]
     [Inr ([30], [''seen'']), Inr ([10, 20], [''seen'', ''seen''])]"
    by (simp add: delivers_def collect_report_def echo_items_def fresh_reporters_def
          reporter_clear_def)
  have h6: "\<forall>a\<in>set [Inr ([30 :: nat], [''seen'']), Inr ([10, 20], [''seen'', ''seen'']) :: (nat, string) answer].
              \<not> isl a"
    by simp
  have h7: "\<forall>steps call. accepting_bar steps call = None" by (simp add: accepting_bar_def)
  have "length (reporter (snd (snd (batch accepting_bar ([] :: string list)
        [Inr ([30 :: nat], [''seen'']), Inr ([10, 20], [''seen'', ''seen''])])))) = 3"
    using report_completeness [OF h1 h2 h3 h4 h5 h6 h7, of "[]"] by simp
  then show ?thesis using h5 h7 by blast
qed

text \<open>
  Claim C7 as stated fails, in two ways. The main Reporter is the one of the context and
  is not emptied: with one entry in it before the batch over three items it holds four
  afterwards, not three. And in a call that leaves \<^verbatim>\<open>total\<close> at \<^verbatim>\<open>None\<close> the first call
  of the progress bar raises, so only the reports of the first batch are merged: one entry
  for three items, although every chunk came back with results.
\<close>

theorem merged_reporter_is_not_exactly_N:
  "delivers echo_items fresh_reporters [0, 0] [(0, [1, 2]), (1, [3])]
     [Inr ([3], [''seen'']), Inr ([1, 2], [''seen'', ''seen''])]
   \<and> length (reporter (snd (snd (batch accepting_bar [''old'']
        [Inr ([3 :: nat], [''seen'']), Inr ([1, 2], [''seen'', ''seen''])])))) = 4
   \<and> length (reporter (snd (snd (batch bar_without_total ([] :: string list)
        [Inr ([3 :: nat], [''seen'']), Inr ([1, 2], [''seen'', ''seen''])])))) = 1"
  by (simp add: delivers_def collect_report_def echo_items_def fresh_reporters_def
        reporter_clear_def batch_def batch_finish_def batch_except_def accepting_bar_def
        bar_without_total_def reporter_merge_def Let_def)




text \<open>
  Claim C2, as the code has it. When the user function raises, \<open>collect_report\<close> lets the
  exception through unchanged and leaves the Reporter of the worker as the user function
  left it, not cleared: the next chunk that the same worker runs (the worker goes on
  when what was raised is an \<^verbatim>\<open>Exception\<close>) starts with that buffer.
\<close>

theorem raising_call_leaves_reporter_uncleared:
  assumes "func chunk rep = (Inl e, rep')" and "reps w = rep"
  shows "collect_report func chunk rep = (Inl e, rep')
       \<and> (cls e \<noteq> NotAnException \<longrightarrow>
            run_tasks func reps [(w, chunk), (w, chunk2)]
              = [Inl e, fst (collect_report func chunk2 rep')])"
proof -
  have c: "collect_report func chunk rep = (Inl e, rep')"
    using assms(1) by (simp add: collect_report_def)
  obtain answer2 rep2 where c2: "collect_report func chunk2 rep' = (answer2, rep2)"
    by (cases "collect_report func chunk2 rep'")
  have "run_tasks func reps [(w, chunk), (w, chunk2)] = [Inl e, answer2]"
    if "cls e \<noteq> NotAnException"
    using that assms(2) c c2 by (cases answer2) simp_all
  then show ?thesis using c c2 by simp
qed

text \<open>
  The same at a concrete worker: the chunk \<^verbatim>\<open>[7, 13]\<close> records one entry and raises.
\<close>

theorem raising_call_leaves_reporter_uncleared_witness:
  "refuse_13 [7, 13] [] = (Inl (Exc OtherException [PyStr ''bad item''] True), [''seen''])
   \<and> cls (Exc OtherException [PyStr ''bad item''] True) \<noteq> NotAnException
   \<and> collect_report refuse_13 [7, 13] []
       = (Inl (Exc OtherException [PyStr ''bad item''] True), [''seen''])
   \<and> run_tasks refuse_13 fresh_reporters [(0, [7, 13]), (0, [8])]
       = [Inl (Exc OtherException [PyStr ''bad item''] True),
          fst (collect_report refuse_13 [8] [''seen''])]"
proof -
  have h1: "refuse_13 [7, 13] [] = (Inl (Exc OtherException [PyStr ''bad item''] True), [''seen''])"
    by (simp add: refuse_13_def)
  have h2: "(fresh_reporters :: nat \<Rightarrow> string reporter) 0 = []" by (simp add: fresh_reporters_def)
  show ?thesis
    using raising_call_leaves_reporter_uncleared
            [of refuse_13 "[7, 13]" "[]" _ _ fresh_reporters 0 "[8]", OF h1 h2] h1
    by simp
qed

text \<open>
  Claim C2 as stated fails: after the chunk \<^verbatim>\<open>[7, 13]\<close> raised, the Reporter of the worker
  still holds the entry recorded for 7, and the reports of the next chunk \<^verbatim>\<open>[8]\<close> of the
  same worker carry it along.
\<close>

theorem reporter_not_cleared_after_raise:
  "snd (collect_report refuse_13 [7, 13] []) = [''seen'']
   \<and> run_tasks refuse_13 fresh_reporters [(0, [7, 13]), (0, [8])]
       = [Inl (Exc OtherException [PyStr ''bad item''] True), Inr ([8], [''seen'', ''seen''])]"
  by (simp add: collect_report_def refuse_13_def fresh_reporters_def reporter_clear_def)


section \<open>Chunk sizes and sources outside the contract\<close>

lemma py_range_zero_step: "py_range start stop 0 = Inl ValueError"
  by (simp add: py_range_def)

lemma py_range_negative_step: "step < 0 \<Longrightarrow> py_range 0 (int n) step = Inr []"
proof -
  assume s: "step < 0"
  have "(0 - int n - step - 1) div (- step) \<le> (- step - 1) div (- step)"
    using s by (intro zdiv_mono1) simp_all
  also have "\<dots> = 0" using s by (simp add: div_pos_pos_trivial)
  finally have "nat ((0 - int n - step - 1) div (- step)) = 0" by simp
  then show ?thesis using s by (simp add: py_range_def)
qed

text \<open>
  Claim C5, as the code has it. No check of the chunk size is made. For a chunk size of 0
  or less no task is ever built, so no worker runs a chunk: the chunk generator either is
  empty or raises ValueError when it is first advanced. It is empty for a chunk size of 0 on
  a plain sequence and for a negative chunk size on a paginated source; \<open>batch\<close> over the
  empty stream of answers then ends normally without a result, with the bar finished when
  the bar accepts \<^verbatim>\<open>finish()\<close>, and also in a call that leaves \<^verbatim>\<open>total\<close> at \<^verbatim>\<open>None\<close>,
  where \<^verbatim>\<open>finish()\<close> raises and the handler prints the message. The chunk generator
  raises ValueError for a negative chunk size on a plain sequence and for a chunk size of
  0 on a paginated source.
\<close>

theorem nonpositive_chunksize_gives_no_chunk:
  fixes iterable :: "'a iterable" and xs :: "'a list" and query :: "'a query"
    and func :: "('a, 'r, 'e) user_func"
  assumes "chunksize \<le> 0"
  shows "(imap_unordered maxsize iterable chunksize = Inr []
          \<or> imap_unordered maxsize iterable chunksize = Inl ValueError)
       \<and> (chunksize = 0 \<longrightarrow>
             imap_unordered maxsize (Plain xs) chunksize = Inr []
             \<and> imap_unordered maxsize (SelectQuery query) chunksize = Inl ValueError)
       \<and> (chunksize < 0 \<longrightarrow>
             imap_unordered maxsize (Plain xs) chunksize = Inl ValueError
             \<and> imap_unordered maxsize (SelectQuery query) chunksize = Inr [])
       \<and> (bar [] None = None \<longrightarrow>
             batch bar reporter0 (run_tasks func reps [])
               = ([], StopIteration,
                  \<lparr>reporter = reporter0, bar_steps = [], bar_finished = True, stdout = [],
                   pool_terminated = True\<rparr>))
       \<and> fst (batch bar_without_total reporter0 (run_tasks func reps [])) = []
       \<and> fst (snd (batch bar_without_total reporter0 (run_tasks func reps []))) = StopIteration"
proof -
  have p0: "imap_unordered maxsize (Plain ys) 0 = Inr []" for ys :: "'a list"
    by (simp add: imap_unordered_def get_tasks_def get_tasks_loop_zero)
  have q0: "imap_unordered maxsize (SelectQuery q) 0 = Inl ValueError" for q :: "'a query"
    by (simp add: imap_unordered_def get_tasks_from_query_def py_range_zero_step)
  have pn: "imap_unordered maxsize (Plain ys) chunksize = Inl ValueError"
    if "chunksize < 0" for ys :: "'a list"
    using that by (simp add: imap_unordered_def get_tasks_def)
  have qn: "imap_unordered maxsize (SelectQuery q) chunksize = Inr []"
    if "chunksize < 0" for q :: "'a query"
    using that by (simp add: imap_unordered_def get_tasks_from_query_def py_range_negative_step)
  have 1: "imap_unordered maxsize iterable chunksize = Inr []
          \<or> imap_unordered maxsize iterable chunksize = Inl ValueError"
  proof (cases "chunksize = 0")
    case True
    then show ?thesis using p0 q0 by (cases iterable) simp_all
  next
    case False
    then have "chunksize < 0" using assms by simp
    then show ?thesis using pn qn by (cases iterable) simp_all
  qed
  have 2: "bar [] None = None \<longrightarrow>
           batch bar reporter0 (run_tasks func reps [])
           = ([], StopIteration,
              \<lparr>reporter = reporter0, bar_steps = [], bar_finished = True, stdout = [],
               pool_terminated = True\<rparr>)"
    by (simp add: batch_def batch_finish_def)
  have 3: "fst (batch bar_without_total reporter0 (run_tasks func reps [])) = []
       \<and> fst (snd (batch bar_without_total reporter0 (run_tasks func reps []))) = StopIteration"
    by (simp add: batch_def batch_finish_def bar_without_total_def batch_except_def)
  show ?thesis using 1 2 3 p0 q0 pn qn by simp
qed

text \<open>
  The same at chunk size 0.
\<close>

theorem nonpositive_chunksize_gives_no_chunk_witness:
  "(0::int) \<le> 0
   \<and> accepting_bar [] None = None
   \<and> imap_unordered 9223372036854775807 (Plain [1, 2, 3 :: nat]) 0 = Inr []
   \<and> imap_unordered 9223372036854775807 (SelectQuery (query_of_rows [1, 2, 3 :: nat])) 0
       = Inl ValueError
   \<and> batch accepting_bar ([] :: string list) (run_tasks echo_items fresh_reporters [])
       = ([], StopIteration,
          \<lparr>reporter = [], bar_steps = [], bar_finished = True, stdout = [],
           pool_terminated = True\<rparr>)"
proof -
  have h: "(0::int) \<le> 0" by simp
  have h2: "accepting_bar [] None = None" by (simp add: accepting_bar_def)
  have "imap_unordered 9223372036854775807 (Plain [1, 2, 3 :: nat]) 0 = Inr []
   \<and> imap_unordered 9223372036854775807 (SelectQuery (query_of_rows [1, 2, 3 :: nat])) 0
       = Inl ValueError
   \<and> batch accepting_bar ([] :: string list) (run_tasks echo_items fresh_reporters [])
       = ([], StopIteration,
          \<lparr>reporter = [], bar_steps = [], bar_finished = True, stdout = [],
           pool_terminated = True\<rparr>)"
    using nonpositive_chunksize_gives_no_chunk
            [OF h, of 9223372036854775807 "Plain [1, 2, 3 :: nat]" "[1, 2, 3]"
               "query_of_rows [1, 2, 3]" accepting_bar "[] :: string list" echo_items
               fresh_reporters] h2
    by simp
  then show ?thesis using h2 by simp
qed

text \<open>
  Claim C5 as stated fails: with chunk size 0 on the plain input \<^verbatim>\<open>[1]\<close>, and with chunk
  size -1 on a paginated source of one row, there is no task and no error, and \<open>batch\<close>
  ends normally with the bar finished.
\<close>

theorem zero_chunksize_completes_silently:
  "imap_unordered 9223372036854775807 (Plain [1 :: nat]) 0 = Inr []
   \<and> imap_unordered 9223372036854775807 (SelectQuery (query_of_rows [1 :: nat])) (- 1) = Inr []
   \<and> batch accepting_bar ([] :: string list) (run_tasks echo_items fresh_reporters [])
       = ([], StopIteration,
          \<lparr>reporter = [], bar_steps = [], bar_finished = True, stdout = [],
           pool_terminated = True\<rparr>)"
  by (simp add: imap_unordered_def get_tasks_def get_tasks_loop_zero get_tasks_from_query_def
        py_range_def query_of_rows_def batch_def batch_finish_def accepting_bar_def)

lemma concat_windows:
  "concat (map (\<lambda>k. take c (drop (k * c) rows)) [0..<m]) = take (m * c) rows"
proof (induction m)
  case 0
  then show ?case by simp
next
  case (Suc m)
  have "take (m * c) rows @ take c (drop (m * c) rows) = take (m * c + c) rows"
    by (simp add: take_add)
  then show ?case using Suc by (simp add: add.commute)
qed

text \<open>
  Claim C9, as the code has it. A paginated source over \<open>rows\<close> that reports any count
  \<open>n\<close>, right or wrong, raises nothing in the chunk source: for a chunk size \<open>C\<close> of at least
  1 there are \<open>\<lceil>n / C\<rceil>\<close> chunks, chunk \<open>i\<close> is whatever the window of limit \<open>C\<close> at offset
  \<open>i * C\<close> holds, and together the chunks are the first rows up to the end of the last
  window: windows past the rows are short or empty, rows past the last window are never
  fetched.
\<close>

theorem miscounting_source_is_absorbed:
  assumes "1 \<le> chunksize"
  shows "\<exists>chunks.
           get_tasks_from_query \<lparr>count_rows = n, limit_offset = window rows\<rparr> chunksize = Inr chunks
           \<and> int (length chunks) = \<lceil>real n / real_of_int chunksize\<rceil>
           \<and> (\<forall>i<length chunks. chunks ! i = window rows chunksize (int i * chunksize))
           \<and> concat chunks = take (length chunks * nat chunksize) rows"
proof -
  let ?c = "nat chunksize"
  let ?L = "(n + ?c - 1) div ?c"
  let ?chunks = "map (\<lambda>k. window rows chunksize (int k * chunksize)) [0..<?L]"
  have c: "0 < ?c" using assms by simp
  have cc: "real_of_int chunksize = real ?c" using assms by simp
  have 1: "get_tasks_from_query \<lparr>count_rows = n, limit_offset = window rows\<rparr> chunksize = Inr ?chunks"
    using assms by (simp add: get_tasks_from_query_pos)
  have 2: "int (length ?chunks) = \<lceil>real n / real_of_int chunksize\<rceil>"
    unfolding cc using ceiling_as_div [OF c, of n] by simp
  have 3: "\<forall>i<length ?chunks. ?chunks ! i = window rows chunksize (int i * chunksize)"
    by simp
  have "?chunks = map (\<lambda>k. take ?c (drop (k * ?c) rows)) [0..<?L]"
    using assms by (simp add: window_nat)
  then have 4: "concat ?chunks = take (length ?chunks * ?c) rows"
    by (simp only: concat_windows length_map length_upt) simp
  show ?thesis using 1 2 3 4 by blast
qed

text \<open>
  The same for a source of five rows that reports two.
\<close>

theorem miscounting_source_is_absorbed_witness:
  "(1::int) \<le> 2
   \<and> get_tasks_from_query \<lparr>count_rows = 2, limit_offset = window [1, 2, 3, 4, 5 :: nat]\<rparr> 2
       = Inr [[1, 2]]"
proof -
  have h: "(1::int) \<le> 2" by simp
  have e: "get_tasks_from_query \<lparr>count_rows = 2, limit_offset = window [1, 2, 3, 4, 5 :: nat]\<rparr> 2
       = Inr [[1, 2]]"
    by code_simp
  show ?thesis
    using miscounting_source_is_absorbed [OF h, of 2 "[1, 2, 3, 4, 5 :: nat]"] e by simp
qed

text \<open>
  Claim C9 as stated fails: a source of one row that reports five gives the chunks
  \<^verbatim>\<open>[1]\<close>, \<^verbatim>\<open>[]\<close>, \<^verbatim>\<open>[]\<close> without an error, and the batch over them ends normally.
\<close>

theorem miscounting_source_raises_nothing:
  "get_tasks_from_query \<lparr>count_rows = 5, limit_offset = window [1 :: nat]\<rparr> 2
     = Inr [[1], [], []]
   \<and> batch accepting_bar ([] :: string list)
        (run_tasks echo_items fresh_reporters [(0, [1]), (1, []), (0, [])])
       = ([(1, \<lparr>reporter = [''seen''], bar_steps = [1], bar_finished = False, stdout = [],
               pool_terminated = False\<rparr>)],
          StopIteration,
          \<lparr>reporter = [''seen''], bar_steps = [1, 0, 0], bar_finished = True, stdout = [],
           pool_terminated = True\<rparr>)"
proof -
  have "get_tasks_from_query \<lparr>count_rows = 5, limit_offset = window [1 :: nat]\<rparr> 2
     = Inr [[1], [], []]"
    by code_simp
  moreover have "batch accepting_bar ([] :: string list)
        (run_tasks echo_items fresh_reporters [(0, [1]), (1, []), (0, [])])
       = ([(1, \<lparr>reporter = [''seen''], bar_steps = [1], bar_finished = False, stdout = [],
               pool_terminated = False\<rparr>)],
          StopIteration,
          \<lparr>reporter = [''seen''], bar_steps = [1, 0, 0], bar_finished = True, stdout = [],
           pool_terminated = True\<rparr>)"
    by (simp add: batch_def batch_finish_def accepting_bar_def collect_report_def
          echo_items_def fresh_reporters_def reporter_clear_def reporter_merge_def Let_def)
  ultimately show ?thesis by simp
qed

end
